theory Spec2Isabelle
  imports Complex_Main "HOL-Library.AList"
begin

section \<open>Orbital: text-to-melody parser and tone scheduler (src/App.jsx)\<close>

text \<open>
  A shallow embedding of the audio core of \<^verbatim>\<open>src/App.jsx\<close>: the function
  \<^verbatim>\<open>parseMelodyText\<close>, the table \<^verbatim>\<open>SCALE\<close> and the callbacks of
  \<^verbatim>\<open>AudioEngine\<close> (\<^verbatim>\<open>initAudio\<close>, \<^verbatim>\<open>fadeOut\<close>, \<^verbatim>\<open>resetVolume\<close>,
  \<^verbatim>\<open>stopAll\<close>, \<^verbatim>\<open>playTone\<close>, \<^verbatim>\<open>stopWord\<close>, \<^verbatim>\<open>playSequence\<close>).

  A JavaScript string is a sequence of UTF-16 code units; \<^verbatim>\<open>text[i]\<close> is the one-unit
  string at index \<open>i\<close>. A character is modelled by its code unit, a natural number, and
  a string by the list of its code units. JavaScript numbers are modelled by reals: the
  only arithmetic the claims depend on is multiplication by powers of two (exact in binary
  floating point in this range) and comparison of small multiples.
\<close>

subsection \<open>Characters and strings\<close>

type_synonym jschar = nat
type_synonym jsstring = "nat list"

definition js :: "string \<Rightarrow> jsstring" where
  "js s = map of_char s"

text \<open>The regular expression \<^verbatim>\<open>/[0-9]/\<close> applied to a one-unit string.\<close>

definition is_digit :: "jschar \<Rightarrow> bool" where
  "is_digit c = (48 \<le> c \<and> c \<le> 57)"

text \<open>\<^verbatim>\<open>parseInt(char)\<close> on a one-unit string that passed \<^verbatim>\<open>/[0-9]/\<close>.\<close>

definition parseInt :: "jschar \<Rightarrow> int" where
  "parseInt c = int c - 48"

subsection \<open>The melody parser\<close>

text \<open>
  The objects pushed by \<^verbatim>\<open>parseMelodyText\<close>: \<^verbatim>\<open>{type:'note', char, octave}\<close>,
  \<^verbatim>\<open>{type:'pending', char}\<close> and \<^verbatim>\<open>{type:'newline'}\<close>.
\<close>

datatype token = Note jschar int | Pending jschar | Newline

definition BASELINE_OCTAVE :: int where
  "BASELINE_OCTAVE = 5"

text \<open>
  The \<^verbatim>\<open>for (let i = 0; i < text.length; i++)\<close> loop, with the loop variable, the
  \<^verbatim>\<open>pendingOctave\<close> slot (\<open>None\<close> is \<^verbatim>\<open>null\<close>) and the \<^verbatim>\<open>tokens\<close> array as arguments.
\<close>

function parse_loop :: "jsstring \<Rightarrow> nat \<Rightarrow> int option \<Rightarrow> token list \<Rightarrow> token list" where
  "parse_loop text i pendingOctave tokens =
     (if i < length text then
        (let char = text ! i in
         if is_digit char then
           parse_loop text (i + 1) (Some (parseInt char))
             (if i = length text - 1 then tokens @ [Pending char] else tokens)
         else if char = 10 then
           parse_loop text (i + 1) None (tokens @ [Newline])
         else
           parse_loop text (i + 1) None
             (tokens @ [Note char (case pendingOctave of Some p \<Rightarrow> p | None \<Rightarrow> BASELINE_OCTAVE)]))
      else tokens)"
  by pat_completeness auto
termination
  by (relation "measure (\<lambda>(text, i, p, tokens). length text - i)") auto

declare parse_loop.simps [simp del]

definition parseMelodyText :: "jsstring \<Rightarrow> token list" where
  "parseMelodyText text = parse_loop text 0 None []"

text \<open>
  The parser as the specification words it: a left-to-right scan with a pending-octave
  slot. A digit sets the slot and emits a pending-digit token only when nothing follows
  it; a newline emits a line break and clears the slot; any other character emits a note
  with the slot's octave, or 5, and clears the slot.
\<close>

fun spec_scan :: "int option \<Rightarrow> jsstring \<Rightarrow> token list" where
  "spec_scan p [] = []"
| "spec_scan p (c # cs) =
     (if is_digit c then
        (if cs = [] then [Pending c] else []) @ spec_scan (Some (int c - 48)) cs
      else if c = 10 then Newline # spec_scan None cs
      else Note c (case p of Some d \<Rightarrow> d | None \<Rightarrow> 5) # spec_scan None cs)"

definition spec_parse :: "jsstring \<Rightarrow> token list" where
  "spec_parse text = spec_scan None text"

fun is_pending :: "token \<Rightarrow> bool" where
  "is_pending (Pending c) = True"
| "is_pending t = False"

subsection \<open>Pitch: the scale table and the frequency of a character\<close>

definition SCALE :: "real list" where
  "SCALE = [130.81, 155.56, 174.61, 196.00, 233.08, 261.63, 311.13, 349.23, 392.00, 466.16,
            523.25, 622.25, 698.46, 783.99, 932.33, 1046.50]"

text \<open>
  \<^verbatim>\<open>String.prototype.toLowerCase\<close> is a primitive of the platform (the Unicode case
  mapping), so the model takes it as a parameter: for a one-unit string it gives the
  code units of the lowercased string, the first one and the rest (the rest is empty
  except for characters such as U+0130, whose lowercase form has two units). On ASCII
  input it is \<open>ascii_toLowerCase\<close>.
\<close>

type_synonym lowercase = "jschar \<Rightarrow> jschar \<times> jsstring"

definition ascii_toLowerCase :: lowercase where
  "ascii_toLowerCase c = (if 65 \<le> c \<and> c \<le> 90 then c + 32 else c, [])"

text \<open>The regular expression \<^verbatim>\<open>/^[a-zA-Z0-9]$/\<close> applied to a one-unit string.\<close>

definition is_alnum :: "jschar \<Rightarrow> bool" where
  "is_alnum c = ((97 \<le> c \<and> c \<le> 122) \<or> (65 \<le> c \<and> c \<le> 90) \<or> (48 \<le> c \<and> c \<le> 57))"

text \<open>
  The frequency computed by \<^verbatim>\<open>playTone\<close> from \<^verbatim>\<open>char\<close> and \<^verbatim>\<open>octaveOverride\<close>
  (\<open>None\<close> is \<^verbatim>\<open>null\<close>), statement by statement; \<^verbatim>\<open>code\<close> is
  \<^verbatim>\<open>lowerChar.charCodeAt(0)\<close>. The variable \<^verbatim>\<open>freq\<close> is reassigned as in the source.
\<close>

definition tone_freq :: "lowercase \<Rightarrow> jschar \<Rightarrow> int option \<Rightarrow> real" where
  "tone_freq toLowerCase char octaveOverride =
     (let lowerChar = toLowerCase char;
          code = int (fst lowerChar);
          alphaIndex = (if code \<ge> 97 \<and> code \<le> 122 then code - 97
                        else if code \<ge> 48 \<and> code \<le> 57 then code
                        else code);
          safeIndex = max 0 alphaIndex;
          noteIndex = safeIndex mod int (length SCALE);
          freq = SCALE ! nat noteIndex;
          scaleWrapShift = safeIndex div int (length SCALE);
          freq = (if scaleWrapShift > 0 then freq * 2 powi (scaleWrapShift mod 4) else freq);
          freq = (if (char, []) \<noteq> lowerChar then freq * 2 else freq);
          freq = (case octaveOverride of
                    None \<Rightarrow> freq
                  | Some oct \<Rightarrow> (let baseline = 5; shift = oct - baseline in freq * 2 powi shift))
      in freq)"

text \<open>
  The frequency as the specification words it: the pitch index of the lowercased
  character, the table entry at the index modulo 16, the wrap shift, the case shift and
  the octave override.
\<close>

definition spec_index :: "lowercase \<Rightarrow> jschar \<Rightarrow> nat" where
  "spec_index toLowerCase c =
     (let l = fst (toLowerCase c) in if 97 \<le> l \<and> l \<le> 122 then l - 97 else l)"

definition spec_freq :: "lowercase \<Rightarrow> jschar \<Rightarrow> int option \<Rightarrow> real" where
  "spec_freq toLowerCase c octave =
     SCALE ! (spec_index toLowerCase c mod 16)
     * (if spec_index toLowerCase c div 16 > 0
        then 2 ^ ((spec_index toLowerCase c div 16) mod 4) else 1)
     * (if toLowerCase c \<noteq> (c, []) then 2 else 1)
     * (case octave of None \<Rightarrow> 1 | Some k \<Rightarrow> 2 powi (k - 5))"

subsection \<open>The audio backend and the state of the engine\<close>

text \<open>
  The backend is the Web Audio graph. Its calls are recorded, not interpreted: an audio
  parameter is the list of automation calls made on it, in call order.
  \<open>HoldValueAtTime t\<close> is \<^verbatim>\<open>p.setValueAtTime(p.value, t)\<close>, whose value is read from the
  backend; \<open>SetValue v\<close> is the assignment \<^verbatim>\<open>p.value = v\<close>.
\<close>

datatype waveform = Sine | Triangle

datatype automation =
    SetValue real
  | SetValueAtTime real real
  | HoldValueAtTime real
  | LinearRampToValueAtTime real real
  | ExponentialRampToValueAtTime real real
  | CancelScheduledValues real

text \<open>The object \<^verbatim>\<open>{ osc, gain }\<close> built by \<^verbatim>\<open>playTone\<close>.\<close>

record nodeGroup =
  osc_type :: waveform
  osc_frequency :: "automation list"
  osc_start :: real
  osc_stop :: real
  gain_gain :: "automation list"
  disconnected :: bool

datatype ctx_state = Suspended | Running | Closed

record audioContext =
  currentTime :: real
  state :: ctx_state

text \<open>
  The values a caller passes as \<^verbatim>\<open>wordId\<close>, with JavaScript's truthiness. Equality of
  the datatype is the key equality of a \<^verbatim>\<open>Map\<close> (SameValueZero).
\<close>

datatype jsval = JNull | JUndefined | JBool bool | JNum real | JNaN | JStr jsstring

fun truthy :: "jsval \<Rightarrow> bool" where
  "truthy JNull = False"
| "truthy JUndefined = False"
| "truthy (JBool b) = b"
| "truthy (JNum x) = (x \<noteq> 0)"
| "truthy JNaN = False"
| "truthy (JStr s) = (s \<noteq> [])"

text \<open>
  The callbacks the engine leaves with the event loop: the self-expiring cleanup that
  \<^verbatim>\<open>playTone\<close> registers with \<^verbatim>\<open>setTimeout\<close>, the hard stop that \<^verbatim>\<open>stopWord\<close>
  registers with \<^verbatim>\<open>setTimeout\<close>, and the continuation of \<^verbatim>\<open>audioCtx.close()\<close> in
  \<^verbatim>\<open>stopAll\<close>. Each is kept with its delay in milliseconds.
\<close>

datatype callback = PruneNode jsval nat | HardStop nat | CloseThen

datatype error = TypeError

text \<open>
  The three refs of \<^verbatim>\<open>AudioEngine\<close>, the node groups created so far (a node group is
  identified by its position in \<open>nodes\<close>), the pending callbacks, and whether the
  browser has an \<^verbatim>\<open>AudioContext\<close> constructor
  (\<^verbatim>\<open>window.AudioContext || window.webkitAudioContext\<close>). \<open>activeNodes\<close> is the
  \<^verbatim>\<open>Map\<close> from \<^verbatim>\<open>wordId\<close> to an array of node groups, as an association list in
  insertion order; \<^verbatim>\<open>Map.size\<close> is its length.
\<close>

record engine =
  hasAudioContext :: bool
  audioCtx :: "audioContext option"
  masterGain :: "automation list option"
  activeNodes :: "(jsval \<times> nat list) list"
  nodes :: "nodeGroup list"
  pending :: "(callback \<times> real) list"

definition initial :: "bool \<Rightarrow> engine" where
  "initial available =
     \<lparr>hasAudioContext = available, audioCtx = None, masterGain = None,
      activeNodes = [], nodes = [], pending = []\<rparr>"

subsection \<open>The callbacks of the engine\<close>

text \<open>
  \<^verbatim>\<open>initAudio\<close>: \<^verbatim>\<open>new AudioContext()\<close> throws a TypeError when the constructor is
  undefined; nothing has been assigned at that point. A new context starts with its clock
  at 0 and is taken to be running; the limiter between the master gain and the
  destination has fixed settings and is not recorded.
\<close>

definition initAudio :: "engine \<Rightarrow> error + engine" where
  "initAudio st =
     (case audioCtx st of
        None \<Rightarrow>
          (if hasAudioContext st
           then Inr (st\<lparr>audioCtx := Some \<lparr>currentTime = 0, state = Running\<rparr>,
                        masterGain := Some [SetValue 0.6]\<rparr>)
           else Inl TypeError)
      | Some ctx \<Rightarrow>
          (if state ctx = Suspended
           then Inr (st\<lparr>audioCtx := Some (ctx\<lparr>state := Running\<rparr>)\<rparr>)
           else Inr st))"

definition fadeOut :: "engine \<Rightarrow> real \<Rightarrow> engine" where
  "fadeOut st duration =
     (case (audioCtx st, masterGain st) of
        (Some ctx, Some master) \<Rightarrow>
          (let t = currentTime ctx in
           st\<lparr>masterGain := Some (master @
                 [CancelScheduledValues t, HoldValueAtTime t,
                  LinearRampToValueAtTime 0 (t + duration)])\<rparr>)
      | _ \<Rightarrow> st)"

definition resetVolume :: "engine \<Rightarrow> engine" where
  "resetVolume st =
     (case (audioCtx st, masterGain st) of
        (Some ctx, Some master) \<Rightarrow>
          (let t = currentTime ctx in
           st\<lparr>masterGain := Some (master @
                 [CancelScheduledValues t, SetValueAtTime 0 t,
                  LinearRampToValueAtTime 1 (t + 0.05)])\<rparr>)
      | _ \<Rightarrow> st)"

text \<open>
  \<^verbatim>\<open>stopAll\<close>: \<^verbatim>\<open>close()\<close> on a context that is already closed returns a rejected
  promise, so no continuation is left; otherwise the context closes and the continuation
  that clears the two refs is left pending.
\<close>

definition stopAll :: "engine \<Rightarrow> engine" where
  "stopAll st =
     (case audioCtx st of
        None \<Rightarrow> st
      | Some ctx \<Rightarrow>
          (if state ctx = Closed then st
           else st\<lparr>audioCtx := Some (ctx\<lparr>state := Closed\<rparr>),
                   pending := pending st @ [(CloseThen, 0)]\<rparr>))"

text \<open>The statement \<^verbatim>\<open>if (!audioCtxRef.current) initAudio();\<close> of \<^verbatim>\<open>playTone\<close> and
  \<^verbatim>\<open>playSequence\<close>.\<close>

definition ensure_ctx :: "engine \<Rightarrow> error + engine" where
  "ensure_ctx st = (if audioCtx st = None then initAudio st else Inr st)"

text \<open>
  The body of \<^verbatim>\<open>playTone\<close> after its guards. \<^verbatim>\<open>volume\<close> is reassigned for a special
  character after \<^verbatim>\<open>finalVol\<close> has been computed, and \<^verbatim>\<open>noteVolume\<close> is computed and
  not used, as in the source.
\<close>

definition schedule_tone ::
  "lowercase \<Rightarrow> engine \<Rightarrow> audioContext \<Rightarrow> jschar \<Rightarrow> real \<Rightarrow> jsval \<Rightarrow> real \<Rightarrow> real
     \<Rightarrow> int option \<Rightarrow> engine" where
  "schedule_tone toLowerCase st ctx char timeOffset wordId duration volume octaveOverride =
     (let currentActive = length (activeNodes st);
          mixingScale = max 0.4 (1 - (real currentActive * 0.05));
          finalVol = volume * mixingScale;
          t = currentTime ctx + timeOffset;
          isSpecial = (\<not> is_alnum char);
          ty = (if isSpecial then Triangle else Sine);
          volume = (if isSpecial then volume * 0.4 else volume);
          freq = tone_freq toLowerCase char octaveOverride;
          noteVolume = volume * 0.8;
          nodeGroup = \<lparr>osc_type = ty,
                       osc_frequency = [SetValueAtTime freq t],
                       osc_start = t,
                       osc_stop = t + duration + 0.1,
                       gain_gain = [SetValueAtTime 0 t,
                                    LinearRampToValueAtTime finalVol (t + 0.02),
                                    ExponentialRampToValueAtTime 0.001 (t + duration)],
                       disconnected = False\<rparr>;
          n = length (nodes st);
          st = st\<lparr>nodes := nodes st @ [nodeGroup]\<rparr>
      in if truthy wordId then
           (let m = (if map_of (activeNodes st) wordId = None
                     then AList.update wordId [] (activeNodes st) else activeNodes st);
                m = (case map_of m wordId of
                       Some list \<Rightarrow> AList.update wordId (list @ [n]) m
                     | None \<Rightarrow> m)
            in st\<lparr>activeNodes := m,
                   pending := pending st @
                     [(PruneNode wordId n, (timeOffset + duration) * 1000 + 200)]\<rparr>)
         else st)"

definition playTone ::
  "lowercase \<Rightarrow> engine \<Rightarrow> jschar \<Rightarrow> real \<Rightarrow> jsval \<Rightarrow> real \<Rightarrow> real \<Rightarrow> int option
     \<Rightarrow> error + engine" where
  "playTone toLowerCase st char timeOffset wordId duration volume octaveOverride =
     (if char = 46 then Inr st
      else case ensure_ctx st of
        Inl e \<Rightarrow> Inl e
      | Inr st1 \<Rightarrow>
          (case (audioCtx st1, masterGain st1) of
             (Some ctx, Some master) \<Rightarrow>
               Inr (schedule_tone toLowerCase st1 ctx char timeOffset wordId duration volume
                      octaveOverride)
           | _ \<Rightarrow> Inr st1))"

text \<open>
  \<^verbatim>\<open>stopWord\<close>: an array is truthy even when empty, so the body runs for every id that
  has an entry; it starts by reading \<^verbatim>\<open>audioCtxRef.current.currentTime\<close>, a TypeError
  when the ref is \<^verbatim>\<open>null\<close>. The automation calls are inside \<^verbatim>\<open>try\<close>.
\<close>

definition fade_node :: "real \<Rightarrow> real \<Rightarrow> engine \<Rightarrow> nat \<Rightarrow> engine" where
  "fade_node t stopDelay st n =
     (if n < length (nodes st) then
        st\<lparr>nodes := (nodes st)[n := (nodes st ! n)\<lparr>gain_gain := gain_gain (nodes st ! n) @
                        [CancelScheduledValues t, HoldValueAtTime t,
                         LinearRampToValueAtTime 0 (t + 0.2)]\<rparr>],
           pending := pending st @ [(HardStop n, stopDelay)]\<rparr>
      else st)"

definition stopWord :: "engine \<Rightarrow> jsval \<Rightarrow> real \<Rightarrow> error + engine" where
  "stopWord st wordId fadeDuration =
     (case map_of (activeNodes st) wordId of
        None \<Rightarrow> Inr st
      | Some list \<Rightarrow>
          (case audioCtx st of
             None \<Rightarrow> Inl TypeError
           | Some ctx \<Rightarrow>
               (let t = currentTime ctx;
                    stopDelay = fadeDuration * 1000 + 200;
                    st = foldl (fade_node t stopDelay) st list
                in Inr (st\<lparr>activeNodes := AList.delete wordId (activeNodes st)\<rparr>))))"

text \<open>
  \<^verbatim>\<open>playSequence\<close>: the \<^verbatim>\<open>forEach\<close> over the tokens with the counter
  \<^verbatim>\<open>timeIndex\<close>; \<^verbatim>\<open>noteSpacing\<close> is 0.15 and the duration passed on is 0.4.
\<close>

definition noteSpacing :: real where
  "noteSpacing = 0.15"

fun play_tokens ::
  "lowercase \<Rightarrow> engine \<Rightarrow> token list \<Rightarrow> jsval \<Rightarrow> real \<Rightarrow> nat \<Rightarrow> error + engine" where
  "play_tokens toLowerCase st [] wordId volume timeIndex = Inr st"
| "play_tokens toLowerCase st (Note char octave # ts) wordId volume timeIndex =
     (case playTone toLowerCase st char (real timeIndex * noteSpacing) wordId 0.4 volume
             (Some octave) of
        Inl e \<Rightarrow> Inl e
      | Inr st' \<Rightarrow> play_tokens toLowerCase st' ts wordId volume (timeIndex + 1))"
| "play_tokens toLowerCase st (Newline # ts) wordId volume timeIndex =
     play_tokens toLowerCase st ts wordId volume 0"
| "play_tokens toLowerCase st (Pending char # ts) wordId volume timeIndex =
     play_tokens toLowerCase st ts wordId volume timeIndex"

definition playSequence ::
  "lowercase \<Rightarrow> engine \<Rightarrow> jsstring \<Rightarrow> jsval \<Rightarrow> real \<Rightarrow> error + engine" where
  "playSequence toLowerCase st word wordId volume =
     (case ensure_ctx st of
        Inl e \<Rightarrow> Inl e
      | Inr st1 \<Rightarrow>
          (if audioCtx st1 = None then Inr st1
           else play_tokens toLowerCase st1 (parseMelodyText word) wordId volume 0))"

text \<open>
  The calls of \<^verbatim>\<open>playTone\<close> that the \<^verbatim>\<open>forEach\<close> of \<^verbatim>\<open>playSequence\<close> makes, in
  order, as (character, time offset, octave), and the execution of such a list of calls.
\<close>

fun tone_calls :: "token list \<Rightarrow> nat \<Rightarrow> (jschar \<times> real \<times> int) list" where
  "tone_calls [] timeIndex = []"
| "tone_calls (Note char octave # ts) timeIndex =
     (char, real timeIndex * noteSpacing, octave) # tone_calls ts (timeIndex + 1)"
| "tone_calls (Newline # ts) timeIndex = tone_calls ts 0"
| "tone_calls (Pending char # ts) timeIndex = tone_calls ts timeIndex"

fun run_calls ::
  "lowercase \<Rightarrow> engine \<Rightarrow> (jschar \<times> real \<times> int) list \<Rightarrow> jsval \<Rightarrow> real \<Rightarrow> error + engine" where
  "run_calls toLowerCase st [] wordId volume = Inr st"
| "run_calls toLowerCase st ((char, timeOffset, octave) # cs) wordId volume =
     (case playTone toLowerCase st char timeOffset wordId 0.4 volume (Some octave) of
        Inl e \<Rightarrow> Inl e
      | Inr st' \<Rightarrow> run_calls toLowerCase st' cs wordId volume)"

text \<open>Running a pending callback removes it from the pending ones.\<close>

definition run_callback :: "engine \<Rightarrow> callback \<Rightarrow> engine" where
  "run_callback st cb =
     (case cb of
        PruneNode wordId n \<Rightarrow>
          (case map_of (activeNodes st) wordId of
             Some list \<Rightarrow>
               st\<lparr>activeNodes :=
                    AList.update wordId (filter (\<lambda>x. x \<noteq> n) list) (activeNodes st)\<rparr>
           | None \<Rightarrow> st)
      | HardStop n \<Rightarrow>
          (if n < length (nodes st)
           then st\<lparr>nodes := (nodes st)[n := (nodes st ! n)\<lparr>disconnected := True\<rparr>]\<rparr>
           else st)
      | CloseThen \<Rightarrow> st\<lparr>audioCtx := None, masterGain := None\<rparr>)"

definition fire :: "engine \<Rightarrow> nat \<Rightarrow> engine" where
  "fire st i =
     (if i < length (pending st)
      then run_callback (st\<lparr>pending := take i (pending st) @ drop (Suc i) (pending st)\<rparr>)
             (fst (pending st ! i))
      else st)"

subsection \<open>The engine as a state machine\<close>

text \<open>
  What a client and the event loop can do to the engine: call one of its callbacks, let a
  pending callback run, or let the clock of the audio context advance. A pending callback
  may run at any moment and in any order: its delay is recorded and not enforced, so the
  states reached here include every state the engine reaches under real timing. An
  exception ends the event handler that made the call; the engine keeps its state (both
  throwing statements come before any assignment) and later events still run.
  \<^verbatim>\<open>playPop\<close> is left out: apart from the lazy initialisation, which is \<open>InitAudio\<close>,
  it builds nodes of its own and touches none of the refs.
\<close>

datatype op =
    InitAudio
  | PlayTone jschar real jsval real real "int option"
  | PlaySequence jsstring jsval real
  | StopWord jsval real
  | StopAll
  | FadeOut real
  | ResetVolume
  | Fire nat
  | Tick real

definition tick :: "engine \<Rightarrow> real \<Rightarrow> engine" where
  "tick st d =
     (case audioCtx st of
        Some ctx \<Rightarrow>
          (if state ctx = Running \<and> d \<ge> 0
           then st\<lparr>audioCtx := Some (ctx\<lparr>currentTime := currentTime ctx + d\<rparr>)\<rparr> else st)
      | None \<Rightarrow> st)"

fun step :: "lowercase \<Rightarrow> engine \<Rightarrow> op \<Rightarrow> error + engine" where
  "step lc st InitAudio = initAudio st"
| "step lc st (PlayTone char timeOffset wordId duration volume octaveOverride) =
     playTone lc st char timeOffset wordId duration volume octaveOverride"
| "step lc st (PlaySequence word wordId volume) = playSequence lc st word wordId volume"
| "step lc st (StopWord wordId fadeDuration) = stopWord st wordId fadeDuration"
| "step lc st StopAll = Inr (stopAll st)"
| "step lc st (FadeOut duration) = Inr (fadeOut st duration)"
| "step lc st ResetVolume = Inr (resetVolume st)"
| "step lc st (Fire i) = Inr (fire st i)"
| "step lc st (Tick d) = Inr (tick st d)"

fun exec :: "lowercase \<Rightarrow> engine \<Rightarrow> op list \<Rightarrow> engine" where
  "exec lc st [] = st"
| "exec lc st (x # xs) =
     (case step lc st x of Inl e \<Rightarrow> exec lc st xs | Inr st' \<Rightarrow> exec lc st' xs)"

subsection \<open>Observations on the state\<close>

text \<open>
  The node groups tracked under an id (none when the id has no entry), all tracked node
  groups, and the node groups that a pending hard stop of \<^verbatim>\<open>stopWord\<close> refers to.
\<close>

definition tracked_notes :: "engine \<Rightarrow> jsval \<Rightarrow> nat list" where
  "tracked_notes st wordId = (case map_of (activeNodes st) wordId of None \<Rightarrow> [] | Some list \<Rightarrow> list)"

definition tracked :: "engine \<Rightarrow> nat list" where
  "tracked st = concat (map snd (activeNodes st))"

fun hard_stop_of :: "callback \<times> real \<Rightarrow> nat list" where
  "hard_stop_of (HardStop n, d) = [n]"
| "hard_stop_of (cb, d) = []"

definition stop_targets :: "engine \<Rightarrow> nat list" where
  "stop_targets st = concat (map hard_stop_of (pending st))"

text \<open>
  The node groups that the engine still refers to: through the map or through a pending
  hard stop. \<open>evolves st st'\<close> says what every operation guarantees: node groups are only
  added, a node group that \<open>st\<close> does not refer to is left as it is, and the only node
  groups that \<open>st'\<close> refers to and \<open>st\<close> did not are new ones. \<open>wf\<close> says that the
  engine refers to node groups that exist.
\<close>

definition refs :: "engine \<Rightarrow> nat set" where
  "refs st = set (tracked st) \<union> set (stop_targets st)"

definition evolves :: "engine \<Rightarrow> engine \<Rightarrow> bool" where
  "evolves st st' =
     (length (nodes st) \<le> length (nodes st')
      \<and> (\<forall>n < length (nodes st). n \<notin> refs st \<longrightarrow> nodes st' ! n = nodes st ! n)
      \<and> refs st' \<subseteq> refs st \<union> {length (nodes st) ..< length (nodes st')})"

definition wf :: "engine \<Rightarrow> bool" where
  "wf st = (\<forall>n \<in> refs st. n < length (nodes st))"



text \<open>
  The engine can schedule: it has a context and a master gain, or it has none and the
  browser has the constructor, so that the lazy initialisation succeeds. \<open>now\<close> is the
  clock that the scheduling then reads.
\<close>

definition ready :: "engine \<Rightarrow> bool" where
  "ready st = (case audioCtx st of None \<Rightarrow> hasAudioContext st | Some ctx \<Rightarrow> masterGain st \<noteq> None)"

definition now :: "engine \<Rightarrow> real" where
  "now st = (case audioCtx st of None \<Rightarrow> 0 | Some ctx \<Rightarrow> currentTime ctx)"

subsection \<open>Parser: the loop computes the scan\<close>

lemma parse_loop_scan:
  "i \<le> length s \<Longrightarrow>
   parse_loop s i p tokens = tokens @ spec_scan p (drop i s)"
proof (induction s i p tokens rule: parse_loop.induct)
  case (1 s i p tokens)
  show ?case
  proof (cases "i < length s")
    case False
    with "1.prems" show ?thesis
      by (subst parse_loop.simps) simp
  next
    case True
    then have d: "drop i s = s ! i # drop (Suc i) s"
      by (simp add: Cons_nth_drop_Suc)
    have last_iff: "(drop (Suc i) s = []) = (i = length s - 1)"
      using True by auto
    from True have le: "Suc i \<le> length s" by simp
    show ?thesis
    proof (cases "is_digit (s ! i)")
      case dig: True
      have "parse_loop s i p tokens =
            parse_loop s (i + 1) (Some (parseInt (s ! i)))
              (if i = length s - 1 then tokens @ [Pending (s ! i)] else tokens)"
        using True dig by (simp add: parse_loop.simps [of s i] Let_def)
      also have "\<dots> = (if i = length s - 1 then tokens @ [Pending (s ! i)] else tokens)
                     @ spec_scan (Some (parseInt (s ! i))) (drop (i + 1) s)"
        using "1.IH"(1) [OF True refl dig] le by simp
      finally show ?thesis
        using dig last_iff by (simp add: d parseInt_def)
    next
      case nodig: False
      show ?thesis
      proof (cases "s ! i = 10")
        case nl: True
        have "parse_loop s i p tokens = parse_loop s (i + 1) None (tokens @ [Newline])"
          using True nodig nl by (simp add: parse_loop.simps [of s i] Let_def)
        also have "\<dots> = (tokens @ [Newline]) @ spec_scan None (drop (i + 1) s)"
          using "1.IH"(2) [OF True refl nodig nl] le by simp
        finally show ?thesis
          using nodig nl by (simp add: d)
      next
        case nonl: False
        let ?n = "Note (s ! i) (case p of Some q \<Rightarrow> q | None \<Rightarrow> BASELINE_OCTAVE)"
        have "parse_loop s i p tokens = parse_loop s (i + 1) None (tokens @ [?n])"
          using True nodig nonl by (simp add: parse_loop.simps [of s i] Let_def)
        also have "\<dots> = (tokens @ [?n]) @ spec_scan None (drop (i + 1) s)"
          using "1.IH"(3) [OF True refl nodig nonl] le by simp
        finally show ?thesis
          using nodig nonl by (simp add: d BASELINE_OCTAVE_def split: option.split)
      qed
    qed
  qed
qed

lemma parseMelodyText_scan: "parseMelodyText s = spec_scan None s"
  by (simp add: parseMelodyText_def parse_loop_scan)

subsection \<open>Parser: examples and the pending digit\<close>


lemma js_simps:
  "js [] = []" "js (c # cs) = of_char c # js cs"
  by (simp_all add: js_def)

text \<open>
  Claim C2. \<^verbatim>\<open>parseMelodyText\<close> is a total function of its input (a HOL function, so pure
  and deterministic), and the index loop of the source computes the left-to-right scan
  with a pending-octave slot that the specification describes: a digit sets the slot, a
  later digit overwriting an earlier one, and emits a pending-digit token only as the
  final character; a newline emits a line break and clears the slot; any other character
  emits a note with the slot's octave, or 5, and clears the slot. The empty string gives
  no token, \<^verbatim>\<open>"12a"\<close> gives the note a at octave 2, \<^verbatim>\<open>"3a5b"\<close> the notes a at 3 and b
  at 5, a, newline, b the notes a and b at 5 around a line break, and \<^verbatim>\<open>"ab3"\<close> the
  notes a and b at 5 and the pending digit 3.
\<close>

theorem parse_scans_left_to_right:
  "parseMelodyText s = spec_parse s
   \<and> parseMelodyText (js '''') = []
   \<and> parseMelodyText (js ''12a'') = [Note 97 2]
   \<and> parseMelodyText (js ''3a5b'') = [Note 97 3, Note 98 5]
   \<and> parseMelodyText [97, 10, 98] = [Note 97 5, Newline, Note 98 5]
   \<and> parseMelodyText (js ''ab3'') = [Note 97 5, Note 98 5, Pending 51]"
  by (simp add: parseMelodyText_scan spec_parse_def js_simps is_digit_def)

lemma scan_pending:
  "filter is_pending (spec_scan p s) =
     (if s \<noteq> [] \<and> is_digit (last s) then [Pending (last s)] else [])"
  by (induction s arbitrary: p) auto

lemma scan_last:
  "s \<noteq> [] \<Longrightarrow> is_digit (last s) \<Longrightarrow>
   spec_scan p s \<noteq> [] \<and> last (spec_scan p s) = Pending (last s)"
proof (induction s arbitrary: p)
  case Nil
  then show ?case by simp
next
  case (Cons a s)
  show ?case
  proof (cases "s = []")
    case True
    with Cons.prems show ?thesis by simp
  next
    case False
    with Cons.prems have "is_digit (last s)" by simp
    with False Cons.IH show ?thesis by simp
  qed
qed

lemma scan_butlast:
  "filter is_pending (butlast (spec_scan p s)) = []"
proof (cases "s \<noteq> [] \<and> is_digit (last s)")
  case True
  then have ne: "spec_scan p s \<noteq> []" and l: "last (spec_scan p s) = Pending (last s)"
    using scan_last by auto
  have "filter is_pending (butlast (spec_scan p s) @ [last (spec_scan p s)]) = [Pending (last s)]"
    using ne True scan_pending [of p s] by simp
  then show ?thesis using l by simp
next
  case False
  then have "filter is_pending (spec_scan p s) = []"
    using scan_pending [of p s] by simp
  then have "\<forall>t \<in> set (spec_scan p s). \<not> is_pending t"
    by (simp add: filter_empty_conv)
  then have "\<forall>t \<in> set (butlast (spec_scan p s)). \<not> is_pending t"
    by (meson in_set_butlastD)
  then show ?thesis by (simp add: filter_empty_conv)
qed

lemma pending_mem_filter: "Pending c \<in> set ts \<longleftrightarrow> Pending c \<in> set (filter is_pending ts)"
  by simp

text \<open>
  Claim C9. The output of \<^verbatim>\<open>parseMelodyText\<close> holds at most one pending-digit token;
  none stands before the last position; one is present exactly when the input is not
  empty and ends with a digit; and when present it is the last token and carries the
  last character of the input.
\<close>

theorem pending_digit_only_last:
  "length (filter is_pending (parseMelodyText s)) \<le> 1
   \<and> filter is_pending (butlast (parseMelodyText s)) = []
   \<and> ((\<exists>c. Pending c \<in> set (parseMelodyText s)) \<longleftrightarrow> (s \<noteq> [] \<and> is_digit (last s)))
   \<and> (\<forall>c. Pending c \<in> set (parseMelodyText s) \<longrightarrow>
          parseMelodyText s \<noteq> [] \<and> last (parseMelodyText s) = Pending c \<and> c = last s)"
proof -
  let ?ts = "parseMelodyText s"
  have f: "filter is_pending ?ts = (if s \<noteq> [] \<and> is_digit (last s) then [Pending (last s)] else [])"
    by (simp add: parseMelodyText_scan scan_pending)
  have mem: "\<And>c. Pending c \<in> set ?ts \<longleftrightarrow> (s \<noteq> [] \<and> is_digit (last s) \<and> c = last s)"
    by (subst pending_mem_filter, subst f) auto
  have 1: "length (filter is_pending ?ts) \<le> 1" by (simp add: f)
  have 2: "filter is_pending (butlast ?ts) = []"
    by (simp add: parseMelodyText_scan scan_butlast)
  have 3: "(\<exists>c. Pending c \<in> set ?ts) \<longleftrightarrow> (s \<noteq> [] \<and> is_digit (last s))"
    by (simp add: mem)
  have 4: "\<forall>c. Pending c \<in> set ?ts \<longrightarrow> ?ts \<noteq> [] \<and> last ?ts = Pending c \<and> c = last s"
  proof (intro allI impI)
    fix c assume "Pending c \<in> set ?ts"
    then have "s \<noteq> []" "is_digit (last s)" "c = last s" using mem by auto
    then show "?ts \<noteq> [] \<and> last ?ts = Pending c \<and> c = last s"
      using scan_last [of s None] by (simp add: parseMelodyText_scan)
  qed
  from 1 2 3 4 show ?thesis by blast
qed

text \<open>The input \<^verbatim>\<open>"ab3"\<close>: the pending digit 3 is present and last.\<close>

theorem pending_digit_only_last_witness:
  "Pending 51 \<in> set (parseMelodyText (js ''ab3''))
   \<and> last (parseMelodyText (js ''ab3'')) = Pending 51
   \<and> filter is_pending (butlast (parseMelodyText (js ''ab3''))) = []
   \<and> is_digit (last (js ''ab3''))"
proof -
  have m: "Pending 51 \<in> set (parseMelodyText (js ''ab3''))"
    by (simp add: parseMelodyText_scan js_simps is_digit_def)
  have l: "last (js ''ab3'') = 51" by (simp add: js_simps)
  show ?thesis
    using m l pending_digit_only_last [of "js ''ab3''"] by (auto simp: is_digit_def)
qed

subsection \<open>Pitch: the computed frequency is the specified one\<close>

lemma length_SCALE: "length SCALE = 16"
  by (simp add: SCALE_def)

lemma tone_freq_spec: "tone_freq lc c octave = spec_freq lc c octave"
proof -
  define l where "l = fst (lc c)"
  define idx where "idx = spec_index lc c"
  have idx: "idx = (if 97 \<le> l \<and> l \<le> 122 then l - 97 else l)"
    by (simp add: idx_def spec_index_def l_def Let_def)
  have alpha: "(if int l \<ge> 97 \<and> int l \<le> 122 then int l - 97
                else if int l \<ge> 48 \<and> int l \<le> 57 then int l else int l) = int idx"
    by (auto simp: idx)
  have safe: "max 0 (int idx) = int idx" by simp
  have nidx: "nat (int idx mod 16) = idx mod 16"
    by (metis nat_int of_nat_mod of_nat_numeral)
  have wrap: "int idx div 16 = int (idx div 16)"
    by (metis of_nat_div of_nat_numeral)
  have pos: "(int (idx div 16) > 0) = (idx div 16 > 0)" by simp
  have pw: "(2::real) powi (int (idx div 16) mod 4) = 2 ^ ((idx div 16) mod 4)"
    by (metis of_nat_mod of_nat_numeral power_int_of_nat)
  have ne: "((c, []) \<noteq> lc c) = (lc c \<noteq> (c, []))" by auto
  show ?thesis
    unfolding tone_freq_def spec_freq_def Let_def length_SCALE
    unfolding l_def [symmetric] idx_def [symmetric]
    by (simp only: alpha safe nidx wrap pos pw ne of_nat_numeral)
       (simp split: option.split)
qed

lemma tone_freq_octave_shift:
  "tone_freq lc c (Some (k + 1)) = 2 * tone_freq lc c (Some k)"
proof -
  have "(2::real) powi (k + 1 - 5) = 2 * 2 powi (k - 5)"
    by (metis add_diff_eq diff_add_eq power_int_add_1' zero_neq_numeral mult.commute)
  then show ?thesis
    by (simp add: tone_freq_def Let_def)
qed

subsection \<open>What a call of playTone schedules\<close>

lemma schedule_tone_nodes:
  "nodes (schedule_tone lc st ctx c off wid d v oct) =
     nodes st @
     [\<lparr>osc_type = (if is_alnum c then Sine else Triangle),
       osc_frequency = [SetValueAtTime (tone_freq lc c oct) (currentTime ctx + off)],
       osc_start = currentTime ctx + off,
       osc_stop = currentTime ctx + off + d + 0.1,
       gain_gain = [SetValueAtTime 0 (currentTime ctx + off),
                    LinearRampToValueAtTime
                      (v * max 0.4 (1 - real (length (activeNodes st)) * 0.05))
                      (currentTime ctx + off + 0.02),
                    ExponentialRampToValueAtTime 0.001 (currentTime ctx + off + d)],
       disconnected = False\<rparr>]"
  by (simp add: schedule_tone_def Let_def)

lemma ensure_ctx_ready:
  assumes "ready st"
  shows "\<exists>st1 ctx m. ensure_ctx st = Inr st1 \<and> audioCtx st1 = Some ctx \<and> masterGain st1 = Some m
           \<and> currentTime ctx = now st \<and> activeNodes st1 = activeNodes st
           \<and> nodes st1 = nodes st \<and> pending st1 = pending st
           \<and> hasAudioContext st1 = hasAudioContext st"
proof (cases "audioCtx st")
  case None
  with assms have "hasAudioContext st" by (simp add: ready_def)
  with None show ?thesis
    by (simp add: ensure_ctx_def initAudio_def now_def)
next
  case (Some ctx)
  with assms obtain m where "masterGain st = Some m" by (auto simp: ready_def)
  with Some show ?thesis
    by (simp add: ensure_ctx_def now_def)
qed

lemma playTone_ready:
  assumes "c \<noteq> 46" and "ready st"
  shows "\<exists>st1 ctx. ensure_ctx st = Inr st1 \<and> audioCtx st1 = Some ctx \<and> masterGain st1 \<noteq> None
           \<and> currentTime ctx = now st \<and> activeNodes st1 = activeNodes st
           \<and> nodes st1 = nodes st \<and> pending st1 = pending st
           \<and> hasAudioContext st1 = hasAudioContext st
           \<and> playTone lc st c off wid d v oct = Inr (schedule_tone lc st1 ctx c off wid d v oct)"
proof -
  from ensure_ctx_ready [OF assms(2)] obtain st1 ctx m where
    e: "ensure_ctx st = Inr st1" "audioCtx st1 = Some ctx" "masterGain st1 = Some m"
       "currentTime ctx = now st" "activeNodes st1 = activeNodes st"
       "nodes st1 = nodes st" "pending st1 = pending st"
       "hasAudioContext st1 = hasAudioContext st"
    by blast
  have "playTone lc st c off wid d v oct = Inr (schedule_tone lc st1 ctx c off wid d v oct)"
    using assms(1) e(1,2,3) by (simp add: playTone_def)
  with e show ?thesis by auto
qed

lemma playTone_rest: "playTone lc st 46 off wid d v oct = Inr st"
  by (simp add: playTone_def)

text \<open>
  Claim C1. The frequency that \<^verbatim>\<open>playTone\<close> computes for a character, and sets on the
  oscillator of every note it schedules, is the entry of \<^verbatim>\<open>SCALE\<close> at the pitch index
  modulo 16, where the index is 0 to 25 for a lowercased character in a to z and the code
  of the lowercased character otherwise (never negative); multiplied by 2 to the power
  (index div 16) mod 4 when index div 16 is positive; doubled when the character differs
  from its lowercase form; and multiplied by 2 to the power (octave - 5) when an octave is
  supplied. Lowercase a with no octave or octave 5 gives the first entry 130.81, uppercase
  A twice that, octave 6 twice the frequency of octave 5, and octave 4 half of it.
\<close>

theorem tone_frequency:
  "tone_freq lc c octave = spec_freq lc c octave
   \<and> (c \<noteq> 46 \<and> ready st \<longrightarrow>
        (\<exists>st'. playTone lc st c off wid d v octave = Inr st'
           \<and> osc_frequency (last (nodes st')) = [SetValueAtTime (spec_freq lc c octave) (now st + off)]))
   \<and> tone_freq ascii_toLowerCase 97 None = 130.81
   \<and> tone_freq ascii_toLowerCase 97 (Some 5) = 130.81
   \<and> tone_freq ascii_toLowerCase 65 (Some 5) = 2 * 130.81
   \<and> tone_freq lc c (Some 6) = 2 * tone_freq lc c (Some 5)
   \<and> tone_freq lc c (Some 4) = tone_freq lc c (Some 5) / 2"
proof -
  have 1: "tone_freq lc c octave = spec_freq lc c octave" by (rule tone_freq_spec)
  have 2: "c \<noteq> 46 \<and> ready st \<longrightarrow>
        (\<exists>st'. playTone lc st c off wid d v octave = Inr st'
           \<and> osc_frequency (last (nodes st')) = [SetValueAtTime (spec_freq lc c octave) (now st + off)])"
  proof
    assume a: "c \<noteq> 46 \<and> ready st"
    then obtain st1 ctx where
      "currentTime ctx = now st"
      "playTone lc st c off wid d v octave = Inr (schedule_tone lc st1 ctx c off wid d v octave)"
      using playTone_ready [of c st lc off wid d v octave] by blast
    then show "\<exists>st'. playTone lc st c off wid d v octave = Inr st'
           \<and> osc_frequency (last (nodes st')) = [SetValueAtTime (spec_freq lc c octave) (now st + off)]"
      by (simp add: schedule_tone_nodes tone_freq_spec)
  qed
  have 3: "tone_freq ascii_toLowerCase 97 None = 130.81"
    by (simp add: tone_freq_def ascii_toLowerCase_def SCALE_def Let_def)
  have 4: "tone_freq ascii_toLowerCase 97 (Some 5) = 130.81"
    by (simp add: tone_freq_def ascii_toLowerCase_def SCALE_def Let_def)
  have 5: "tone_freq ascii_toLowerCase 65 (Some 5) = 2 * 130.81"
    by (simp add: tone_freq_def ascii_toLowerCase_def SCALE_def Let_def)
  have 6: "tone_freq lc c (Some 6) = 2 * tone_freq lc c (Some 5)"
    using tone_freq_octave_shift [of lc c 5] by simp
  have 7: "tone_freq lc c (Some 4) = tone_freq lc c (Some 5) / 2"
    using tone_freq_octave_shift [of lc c 4] by simp
  from 1 2 3 4 5 6 7 show ?thesis by blast
qed

text \<open>The character z at octave 6 on a fresh engine: index 25, entry 9, one wrap, one octave up.\<close>

theorem tone_frequency_witness:
  "ready (initial True)
   \<and> playTone ascii_toLowerCase (initial True) 122 0 JNull 0.15 0.1 (Some 6)
       = Inr (schedule_tone ascii_toLowerCase
               (initial True\<lparr>audioCtx := Some \<lparr>currentTime = 0, state = Running\<rparr>,
                              masterGain := Some [SetValue 0.6]\<rparr>)
               \<lparr>currentTime = 0, state = Running\<rparr> 122 0 JNull 0.15 0.1 (Some 6))
   \<and> (\<exists>st'. playTone ascii_toLowerCase (initial True) 122 0 JNull 0.15 0.1 (Some 6) = Inr st'
          \<and> osc_frequency (last (nodes st')) = [SetValueAtTime (4 * 466.16) 0])"
proof -
  have r: "ready (initial True)" by (simp add: ready_def initial_def)
  have n: "now (initial True) = 0" by (simp add: now_def initial_def)
  have p: "playTone ascii_toLowerCase (initial True) 122 0 JNull 0.15 0.1 (Some 6)
       = Inr (schedule_tone ascii_toLowerCase
               (initial True\<lparr>audioCtx := Some \<lparr>currentTime = 0, state = Running\<rparr>,
                              masterGain := Some [SetValue 0.6]\<rparr>)
               \<lparr>currentTime = 0, state = Running\<rparr> 122 0 JNull 0.15 0.1 (Some 6))"
    by (simp add: playTone_def ensure_ctx_def initAudio_def initial_def)
  have f: "spec_freq ascii_toLowerCase 122 (Some 6) = 4 * 466.16"
    by (simp add: spec_freq_def spec_index_def ascii_toLowerCase_def SCALE_def Let_def)
  from tone_frequency [where lc = ascii_toLowerCase and c = 122 and octave = "Some 6"
         and st = "initial True" and off = 0 and wid = JNull and d = "0.15" and v = "0.1"]
  show ?thesis using r n p f by simp
qed

subsection \<open>Sequences: timing of the calls\<close>

lemma play_tokens_calls:
  "play_tokens lc st ts wid vol k = run_calls lc st (tone_calls ts k) wid vol"
proof (induction ts arbitrary: st k)
  case Nil
  then show ?case by simp
next
  case (Cons t ts)
  then show ?case
    by (cases t) (simp_all split: sum.split)
qed

lemma tone_calls_line_offsets:
  "map (fst \<circ> snd) (tone_calls (map (\<lambda>(c, oct). Note c oct) line) k) =
     map (\<lambda>i. real (k + i) * noteSpacing) [0..<length line]"
proof (induction line arbitrary: k)
  case Nil
  then show ?case by simp
next
  case (Cons x xs)
  have u: "[0..<length (x # xs)] = 0 # map Suc [0..<length xs]"
    by (simp add: upt_conv_Cons map_Suc_upt del: upt_Suc)
  show ?case
    unfolding u using Cons.IH [of "k + 1"]
    by (simp add: case_prod_beta comp_def)
qed

lemma tone_calls_line_chars:
  "map (\<lambda>(c, off, oct). (c, oct)) (tone_calls (map (\<lambda>(c, oct). Note c oct) line) k) = line"
  by (induction line arbitrary: k) (simp_all add: case_prod_beta)

lemma tone_calls_newline:
  "tone_calls (l1 @ Newline # l2) k = tone_calls l1 k @ tone_calls l2 0"
proof (induction l1 arbitrary: k)
  case Nil
  then show ?case by simp
next
  case (Cons t ts)
  then show ?case by (cases t) simp_all
qed

lemma line_offsets_increasing:
  "sorted_wrt (<) (map (\<lambda>i. real (k + i) * noteSpacing) [0..<n])"
proof -
  have "sorted_wrt (\<lambda>i j. real (k + i) * noteSpacing < real (k + j) * noteSpacing) [0..<n]"
    by (rule sorted_wrt_mono_rel [of "[0..<n]" "(<)"]) (simp_all add: noteSpacing_def)
  then show ?thesis by (simp add: sorted_wrt_map)
qed


lemma schedule_tone_ctx:
  "audioCtx (schedule_tone lc st ctx c off wid d v oct) = audioCtx st"
  "masterGain (schedule_tone lc st ctx c off wid d v oct) = masterGain st"
  "hasAudioContext (schedule_tone lc st ctx c off wid d v oct) = hasAudioContext st"
  by (simp_all add: schedule_tone_def Let_def)

lemma playTone_start:
  assumes "ready st"
  shows "\<exists>st' new. playTone lc st c off wid d v oct = Inr st' \<and> ready st' \<and> now st' = now st
           \<and> nodes st' = nodes st @ new
           \<and> map osc_start new = (if c = 46 then [] else [now st + off])"
proof (cases "c = 46")
  case True
  with assms show ?thesis by (simp add: playTone_rest)
next
  case False
  from playTone_ready [OF False assms, of lc off wid d v oct] obtain st1 ctx where
    e: "audioCtx st1 = Some ctx" "masterGain st1 \<noteq> None" "currentTime ctx = now st"
       "nodes st1 = nodes st"
       "playTone lc st c off wid d v oct = Inr (schedule_tone lc st1 ctx c off wid d v oct)"
    by blast
  let ?st = "schedule_tone lc st1 ctx c off wid d v oct"
  have r: "ready ?st" and n: "now ?st = now st"
    using e by (auto simp: ready_def now_def schedule_tone_ctx)
  have "\<exists>new. nodes ?st = nodes st @ new \<and> map osc_start new = [now st + off]"
    using e by (simp add: schedule_tone_nodes)
  with e(5) r n False show ?thesis by auto
qed

lemma run_calls_starts:
  assumes "ready st"
  shows "\<exists>st' new. run_calls lc st calls wid vol = Inr st' \<and> ready st' \<and> now st' = now st
           \<and> nodes st' = nodes st @ new
           \<and> map osc_start new =
               map (\<lambda>(c, off, oct). now st + off) (filter (\<lambda>(c, off, oct). c \<noteq> 46) calls)"
  using assms
proof (induction calls arbitrary: st)
  case Nil
  then show ?case by simp
next
  case (Cons x xs)
  obtain c off oct where x: "x = (c, off, oct)" by (cases x)
  from playTone_start [OF Cons.prems, of lc c off wid "0.4" vol "Some oct"]
  obtain st1 new1 where
    1: "playTone lc st c off wid 0.4 vol (Some oct) = Inr st1" "ready st1" "now st1 = now st"
       "nodes st1 = nodes st @ new1"
       "map osc_start new1 = (if c = 46 then [] else [now st + off])"
    by blast
  from Cons.IH [OF 1(2)] obtain st' new2 where
    2: "run_calls lc st1 xs wid vol = Inr st'" "ready st'" "now st' = now st1"
       "nodes st' = nodes st1 @ new2"
       "map osc_start new2 =
          map (\<lambda>(c, off, oct). now st1 + off) (filter (\<lambda>(c, off, oct). c \<noteq> 46) xs)"
    by blast
  have "run_calls lc st (x # xs) wid vol = Inr st'" using 1(1) 2(1) by (simp add: x)
  moreover have "nodes st' = nodes st @ (new1 @ new2)" by (simp add: 1(4) 2(4))
  moreover have "map osc_start (new1 @ new2) =
      map (\<lambda>(c, off, oct). now st + off) (filter (\<lambda>(c, off, oct). c \<noteq> 46) (x # xs))"
    by (simp add: x 1(5) 2(5) 1(3))
  ultimately show ?case using 2(2) 2(3) 1(3) by metis
qed

lemma playSequence_starts:
  assumes "ready st"
  shows "\<exists>st' new. playSequence lc st word wid vol = Inr st' \<and> nodes st' = nodes st @ new
           \<and> map osc_start new =
               map (\<lambda>(c, off, oct). now st + off)
                 (filter (\<lambda>(c, off, oct). c \<noteq> 46) (tone_calls (parseMelodyText word) 0))"
proof -
  from ensure_ctx_ready [OF assms] obtain st1 ctx m where
    e: "ensure_ctx st = Inr st1" "audioCtx st1 = Some ctx" "masterGain st1 = Some m"
       "currentTime ctx = now st" "nodes st1 = nodes st"
    by blast
  have r: "ready st1" and n: "now st1 = now st"
    using e by (simp_all add: ready_def now_def)
  have p: "playSequence lc st word wid vol =
             run_calls lc st1 (tone_calls (parseMelodyText word) 0) wid vol"
    using e by (simp add: playSequence_def play_tokens_calls)
  from run_calls_starts [OF r, of lc "tone_calls (parseMelodyText word) 0" wid vol]
  show ?thesis unfolding p n e(5) by blast
qed


lemma play_tokens_starts:
  assumes "ready st"
  shows "\<exists>st' new. play_tokens lc st ts wid vol k = Inr st' \<and> nodes st' = nodes st @ new
           \<and> map osc_start new =
               map (\<lambda>(c, off, oct). now st + off)
                 (filter (\<lambda>(c, off, oct). c \<noteq> 46) (tone_calls ts k))"
  using run_calls_starts [OF assms, of lc "tone_calls ts k" wid vol]
  unfolding play_tokens_calls by blast

text \<open>
  Claim C3. \<^verbatim>\<open>playSequence\<close> makes the calls \<open>tone_calls\<close> of the parsed tokens in
  order, with the counter starting at 0, and on an engine that can schedule each call
  whose character is not the rest \<^verbatim>\<open>.\<close> adds one node group whose oscillator starts at
  the clock of the context plus the offset of the call; the same holds for the tokens
  played from any counter value. Within a line of notes the calls come in input order,
  the i-th at the offset (counter + i) times 0.15 seconds, so at strictly increasing
  offsets; a line break resets the counter, so the calls of the tokens after it are those
  of a sequence started at 0, and the lines overlap in time: for a, b, newline, c, d the
  offsets are 0, 0.15, 0, 0.15, and on a fresh engine the four oscillators start at 0,
  0.15, 0 and 0.15 seconds.
\<close>

theorem sequence_offsets:
  "playSequence lc st word wid vol =
     (case ensure_ctx st of
        Inl e \<Rightarrow> Inl e
      | Inr st1 \<Rightarrow>
          if audioCtx st1 = None then Inr st1
          else run_calls lc st1 (tone_calls (parseMelodyText word) 0) wid vol)
   \<and> (ready st \<longrightarrow>
        (\<exists>st' new. playSequence lc st word wid vol = Inr st' \<and> nodes st' = nodes st @ new
           \<and> map osc_start new =
               map (\<lambda>(c, off, oct). now st + off)
                 (filter (\<lambda>(c, off, oct). c \<noteq> 46) (tone_calls (parseMelodyText word) 0))))
   \<and> (ready st \<longrightarrow>
        (\<exists>st' new. play_tokens lc st ts wid vol k = Inr st' \<and> nodes st' = nodes st @ new
           \<and> map osc_start new =
               map (\<lambda>(c, off, oct). now st + off)
                 (filter (\<lambda>(c, off, oct). c \<noteq> 46) (tone_calls ts k))))
   \<and> map (fst \<circ> snd) (tone_calls (map (\<lambda>(c, oct). Note c oct) line) k)
       = map (\<lambda>i. real (k + i) * 0.15) [0..<length line]
   \<and> map (\<lambda>(c, off, oct). (c, oct)) (tone_calls (map (\<lambda>(c, oct). Note c oct) line) k) = line
   \<and> sorted_wrt (<) (map (fst \<circ> snd) (tone_calls (map (\<lambda>(c, oct). Note c oct) line) k))
   \<and> tone_calls (l1 @ Newline # l2) k = tone_calls l1 k @ tone_calls l2 0
   \<and> tone_calls (parseMelodyText [97, 98, 10, 99, 100]) 0
       = [(97, 0, 5), (98, 0.15, 5), (99, 0, 5), (100, 0.15, 5)]
   \<and> map osc_start (nodes (exec ascii_toLowerCase (initial True)
                              [PlaySequence [97, 98, 10, 99, 100] JNull 0.1]))
       = [0, 0.15, 0, 0.15]"
proof -
  have 1: "playSequence lc st word wid vol =
     (case ensure_ctx st of
        Inl e \<Rightarrow> Inl e
      | Inr st1 \<Rightarrow>
          if audioCtx st1 = None then Inr st1
          else run_calls lc st1 (tone_calls (parseMelodyText word) 0) wid vol)"
    by (simp add: playSequence_def play_tokens_calls split: sum.split)
  have 2: "map (fst \<circ> snd) (tone_calls (map (\<lambda>(c, oct). Note c oct) line) k)
       = map (\<lambda>i. real (k + i) * 0.15) [0..<length line]"
    using tone_calls_line_offsets [of line k] by (simp add: noteSpacing_def)
  have 3: "map (\<lambda>(c, off, oct). (c, oct)) (tone_calls (map (\<lambda>(c, oct). Note c oct) line) k) = line"
    by (rule tone_calls_line_chars)
  have 4: "sorted_wrt (<) (map (fst \<circ> snd) (tone_calls (map (\<lambda>(c, oct). Note c oct) line) k))"
    unfolding tone_calls_line_offsets by (rule line_offsets_increasing)
  have 5: "tone_calls (l1 @ Newline # l2) k = tone_calls l1 k @ tone_calls l2 0"
    by (rule tone_calls_newline)
  have 6: "tone_calls (parseMelodyText [97, 98, 10, 99, 100]) 0
       = [(97, 0, 5), (98, 0.15, 5), (99, 0, 5), (100, 0.15, 5)]"
    by (simp add: parseMelodyText_scan is_digit_def noteSpacing_def)
  have 7: "ready st \<longrightarrow>
        (\<exists>st' new. playSequence lc st word wid vol = Inr st' \<and> nodes st' = nodes st @ new
           \<and> map osc_start new =
               map (\<lambda>(c, off, oct). now st + off)
                 (filter (\<lambda>(c, off, oct). c \<noteq> 46) (tone_calls (parseMelodyText word) 0)))"
    using playSequence_starts [of st lc word wid vol] by blast
  have 8: "ready st \<longrightarrow>
        (\<exists>st' new. play_tokens lc st ts wid vol k = Inr st' \<and> nodes st' = nodes st @ new
           \<and> map osc_start new =
               map (\<lambda>(c, off, oct). now st + off)
                 (filter (\<lambda>(c, off, oct). c \<noteq> 46) (tone_calls ts k)))"
    using play_tokens_starts [of st lc ts wid vol k] by blast
  have 9: "map osc_start (nodes (exec ascii_toLowerCase (initial True)
                              [PlaySequence [97, 98, 10, 99, 100] JNull 0.1]))
       = [0, 0.15, 0, 0.15]"
    by (simp add: playSequence_def playTone_def ensure_ctx_def initAudio_def schedule_tone_def
          initial_def parseMelodyText_scan is_digit_def is_alnum_def noteSpacing_def Let_def)
  from 1 2 3 4 5 6 7 8 9 show ?thesis by blast
qed

text \<open>
  The sequence a, \<^verbatim>\<open>.\<close>, b, newline, c on a fresh engine: three node groups, starting at
  0, 0.30 and 0 seconds.
\<close>

theorem sequence_offsets_witness:
  "ready (initial True)
   \<and> (\<exists>st'. playSequence ascii_toLowerCase (initial True) [97, 46, 98, 10, 99] JNull 0.1 = Inr st'
         \<and> map osc_start (nodes st') = [0, 0.30, 0])
   \<and> (\<exists>st'. play_tokens ascii_toLowerCase (initial True) [Note 97 5, Note 98 5] JNull 0.1 2 = Inr st'
         \<and> map osc_start (nodes st') = [0.30, 0.45])"
proof -
  have r: "ready (initial True)" by (simp add: ready_def initial_def)
  have n: "now (initial True) = 0" "nodes (initial True) = []"
    by (simp_all add: now_def initial_def)
  have c: "tone_calls (parseMelodyText [97, 46, 98, 10, 99]) 0
             = [(97, 0, 5), (46, 0.15, 5), (98, 0.30, 5), (99, 0, 5)]"
    by (simp add: parseMelodyText_scan is_digit_def noteSpacing_def)
  have c2: "tone_calls [Note 97 5, Note 98 5] 2 = [(97, 0.30, 5), (98, 0.45, 5)]"
    by (simp add: noteSpacing_def)
  note t = sequence_offsets [where st = "initial True" and lc = ascii_toLowerCase
      and word = "[97, 46, 98, 10, 99]" and wid = JNull and vol = "0.1"
      and ts = "[Note 97 5, Note 98 5]" and k = 2]
  from t r obtain s1 new1 where
    a1: "playSequence ascii_toLowerCase (initial True) [97, 46, 98, 10, 99] JNull 0.1 = Inr s1"
        "nodes s1 = nodes (initial True) @ new1"
        "map osc_start new1 =
           map (\<lambda>(c, off, oct). now (initial True) + off)
             (filter (\<lambda>(c, off, oct). c \<noteq> 46)
                (tone_calls (parseMelodyText [97, 46, 98, 10, 99]) 0))"
    by blast
  have h1: "map osc_start (nodes s1) = [0, 0.30, 0]"
    unfolding a1(2) n using a1(3) unfolding c n by simp
  have a: "\<exists>st'. playSequence ascii_toLowerCase (initial True) [97, 46, 98, 10, 99]
                        JNull 0.1 = Inr st' \<and> map osc_start (nodes st') = [0, 0.30, 0]"
    by (rule exI [where x = s1], rule conjI [OF a1(1) h1])
  from t r obtain s2 new2 where
    b1: "play_tokens ascii_toLowerCase (initial True) [Note 97 5, Note 98 5] JNull 0.1 2 = Inr s2"
        "nodes s2 = nodes (initial True) @ new2"
        "map osc_start new2 =
           map (\<lambda>(c, off, oct). now (initial True) + off)
             (filter (\<lambda>(c, off, oct). c \<noteq> 46) (tone_calls [Note 97 5, Note 98 5] 2))"
    by blast
  have h2: "map osc_start (nodes s2) = [0.30, 0.45]"
    unfolding b1(2) n using b1(3) unfolding c2 n by simp
  have b: "\<exists>st'. play_tokens ascii_toLowerCase (initial True) [Note 97 5, Note 98 5]
                        JNull 0.1 2 = Inr st' \<and> map osc_start (nodes st') = [0.30, 0.45]"
    by (rule exI [where x = s2], rule conjI [OF b1(1) h2])
  from r a b show ?thesis by (intro conjI)
qed

subsection \<open>The rest character\<close>

lemmas engine_eval =
  playSequence_def playTone_def ensure_ctx_def initAudio_def schedule_tone_def initial_def
  stopWord_def fade_node_def stopAll_def fadeOut_def resetVolume_def fire_def
  run_callback_def tick_def parseMelodyText_scan is_digit_def is_alnum_def noteSpacing_def
  js_simps Let_def

text \<open>
  Claim C7. A call of \<^verbatim>\<open>playTone\<close> with the character \<^verbatim>\<open>.\<close> returns at once and leaves
  the engine as it was, whatever the offset, id, duration, volume and octave: nothing is
  scheduled. In \<^verbatim>\<open>playSequence\<close> the call is still made and the counter still
  incremented, so the tokens after a \<^verbatim>\<open>.\<close> are played as from the next counter value:
  the rest takes one slot of 0.15 seconds. In a, \<^verbatim>\<open>.\<close>, b two notes are scheduled, at 0
  and at 0.30 seconds.
\<close>

theorem period_is_a_rest:
  "playTone lc st 46 off wid d v oct = Inr st
   \<and> play_tokens lc st (Note 46 octave # ts) wid vol k = play_tokens lc st ts wid vol (k + 1)
   \<and> tone_calls (Note 46 octave # ts) k = (46, real k * 0.15, octave) # tone_calls ts (k + 1)
   \<and> map osc_start (nodes (exec ascii_toLowerCase (initial True)
                              [PlaySequence (js ''a.b'') JNull 0.1])) = [0, 0.30]"
proof -
  have 1: "playTone lc st 46 off wid d v oct = Inr st" by (rule playTone_rest)
  have 2: "play_tokens lc st (Note 46 octave # ts) wid vol k = play_tokens lc st ts wid vol (k + 1)"
    by (simp add: playTone_rest)
  have 3: "tone_calls (Note 46 octave # ts) k = (46, real k * 0.15, octave) # tone_calls ts (k + 1)"
    by (simp add: noteSpacing_def)
  have 4: "map osc_start (nodes (exec ascii_toLowerCase (initial True)
                              [PlaySequence (js ''a.b'') JNull 0.1])) = [0, 0.30]"
    by (simp add: engine_eval)
  from 1 2 3 4 show ?thesis by blast
qed

subsection \<open>Mixing attenuation and timbre\<close>

lemma playTone_gain:
  assumes "c \<noteq> 46" and "ready st"
  shows "\<exists>st'. playTone lc st c off wid d v oct = Inr st'
           \<and> nodes st' = nodes st @ [last (nodes st')]
           \<and> osc_type (last (nodes st')) = (if is_alnum c then Sine else Triangle)
           \<and> gain_gain (last (nodes st')) =
                [SetValueAtTime 0 (now st + off),
                 LinearRampToValueAtTime
                   (v * max 0.4 (1 - 0.05 * real (length (activeNodes st)))) (now st + off + 0.02),
                 ExponentialRampToValueAtTime 0.001 (now st + off + d)]"
proof -
  from playTone_ready [OF assms, of lc off wid d v oct] obtain st1 ctx where
    e: "currentTime ctx = now st" "activeNodes st1 = activeNodes st" "nodes st1 = nodes st"
       "playTone lc st c off wid d v oct = Inr (schedule_tone lc st1 ctx c off wid d v oct)"
    by blast
  show ?thesis
    using e by (simp add: schedule_tone_nodes mult.commute)
qed





text \<open>
  Claim C5 at the call \<^verbatim>\<open>playTone('!', 0, null, 0.15, 0.1)\<close> on a fresh engine: the
  waveform is the triangle, and the gain ramps to 0.1, the same value as for the
  alphanumeric a, not to 0.04: the factor 0.4 is applied to \<^verbatim>\<open>volume\<close> after
  \<^verbatim>\<open>finalVol\<close> has been computed, and only the unused \<^verbatim>\<open>noteVolume\<close> depends on it.
  For every state and every pair of characters the gain automation is the same.
\<close>

theorem special_character_gain_not_reduced:
  "map osc_type (nodes (exec ascii_toLowerCase (initial True)
       [PlayTone 33 0 JNull 0.15 0.1 None])) = [Triangle]
   \<and> map gain_gain (nodes (exec ascii_toLowerCase (initial True)
       [PlayTone 33 0 JNull 0.15 0.1 None]))
       = [[SetValueAtTime 0 0, LinearRampToValueAtTime 0.1 0.02,
           ExponentialRampToValueAtTime 0.001 0.15]]
   \<and> map osc_type (nodes (exec ascii_toLowerCase (initial True)
       [PlayTone 97 0 JNull 0.15 0.1 None])) = [Sine]
   \<and> map gain_gain (nodes (exec ascii_toLowerCase (initial True)
       [PlayTone 97 0 JNull 0.15 0.1 None]))
       = [[SetValueAtTime 0 0, LinearRampToValueAtTime 0.1 0.02,
           ExponentialRampToValueAtTime 0.001 0.15]]
   \<and> gain_gain (last (nodes (schedule_tone lc st ctx c1 off wid d v oct)))
       = gain_gain (last (nodes (schedule_tone lc st ctx c2 off wid d v oct)))"
  by (simp add: engine_eval schedule_tone_nodes)

subsection \<open>Stopping a performance\<close>

lemma fade_node_frame:
  "activeNodes (fade_node t sd st n) = activeNodes st"
  "audioCtx (fade_node t sd st n) = audioCtx st"
  "masterGain (fade_node t sd st n) = masterGain st"
  "hasAudioContext (fade_node t sd st n) = hasAudioContext st"
  "length (nodes (fade_node t sd st n)) = length (nodes st)"
  by (simp_all add: fade_node_def)

lemma foldl_fade_frame:
  "activeNodes (foldl (fade_node t sd) st l) = activeNodes st
   \<and> audioCtx (foldl (fade_node t sd) st l) = audioCtx st
   \<and> masterGain (foldl (fade_node t sd) st l) = masterGain st
   \<and> hasAudioContext (foldl (fade_node t sd) st l) = hasAudioContext st
   \<and> length (nodes (foldl (fade_node t sd) st l)) = length (nodes st)"
  by (induction l arbitrary: st) (simp_all add: fade_node_frame)

lemma stopWord_no_entry:
  "map_of (activeNodes st) wid = None \<Longrightarrow> stopWord st wid f = Inr st"
  by (simp add: stopWord_def)

lemma stopWord_entry:
  "map_of (activeNodes st) wid = Some l \<Longrightarrow> audioCtx st = Some ctx \<Longrightarrow>
   stopWord st wid f =
     Inr ((foldl (fade_node (currentTime ctx) (f * 1000 + 200)) st l)
            \<lparr>activeNodes := AList.delete wid (activeNodes st)\<rparr>)"
  by (simp add: stopWord_def Let_def foldl_fade_frame)

lemma stopWord_throws:
  "map_of (activeNodes st) wid = Some l \<Longrightarrow> audioCtx st = None \<Longrightarrow>
   stopWord st wid f = Inl TypeError"
  by (simp add: stopWord_def)

lemma stopWord_removes_entry:
  assumes "stopWord st wid f = Inr st'"
  shows "map_of (activeNodes st') wid = None"
proof (cases "map_of (activeNodes st) wid")
  case None
  with assms show ?thesis by (simp add: stopWord_no_entry)
next
  case (Some l)
  show ?thesis
  proof (cases "audioCtx st")
    case None
    with Some assms show ?thesis by (simp add: stopWord_throws)
  next
    case ctx: (Some ctx)
    from assms show ?thesis
      unfolding stopWord_entry [OF Some ctx] by (auto simp: delete_conv)
  qed
qed

lemma schedule_tone_fresh_entry:
  assumes "truthy wid" and "map_of (activeNodes st) wid = None"
  shows "map_of (activeNodes (schedule_tone lc st ctx c off wid d v oct)) wid
           = Some [length (nodes st)]"
  using assms by (simp add: schedule_tone_def Let_def update_conv')

lemma fresh_entry_after_stop:
  assumes "stopWord st wid f = Inr st'" and "truthy wid" and "c \<noteq> 46" and "ready st'"
  shows "\<exists>st''. playTone lc st' c off wid d v oct = Inr st''
           \<and> length (nodes st'') = Suc (length (nodes st'))
           \<and> map_of (activeNodes st'') wid = Some [length (nodes st')]"
proof -
  have none: "map_of (activeNodes st') wid = None"
    using assms(1) by (rule stopWord_removes_entry)
  from playTone_ready [OF assms(3,4), of lc off wid d v oct] obtain st1 ctx where
    e: "activeNodes st1 = activeNodes st'" "nodes st1 = nodes st'"
       "playTone lc st' c off wid d v oct = Inr (schedule_tone lc st1 ctx c off wid d v oct)"
    by blast
  let ?st = "schedule_tone lc st1 ctx c off wid d v oct"
  have "length (nodes ?st) = Suc (length (nodes st'))"
    by (simp add: schedule_tone_nodes e)
  moreover have "map_of (activeNodes ?st) wid = Some [length (nodes st')]"
    using assms(2) none e schedule_tone_fresh_entry [of wid st1 lc ctx c off d v oct] by simp
  ultimately show ?thesis using e(3) by blast
qed

text \<open>
  Claim C6 at an id with zero tracked notes. After one note under the id w and its
  cleanup, the entry of w is an empty array; after \<^verbatim>\<open>stopAll()\<close> and the continuation of
  \<^verbatim>\<open>close()\<close>, the context ref is \<^verbatim>\<open>null\<close>. \<^verbatim>\<open>stopWord(w, 0.1)\<close> then throws a
  TypeError, and the entry of w stays. Before \<^verbatim>\<open>stopAll()\<close>, with the context in place,
  the same call returns and leaves no entry for w.
\<close>

theorem stopWord_zero_notes_throws:
  "tracked_notes (exec ascii_toLowerCase (initial True)
       [PlayTone 97 0 (JStr (js ''w'')) 0.15 0.1 None, Fire 0, StopAll, Fire 0])
       (JStr (js ''w'')) = []
   \<and> audioCtx (exec ascii_toLowerCase (initial True)
       [PlayTone 97 0 (JStr (js ''w'')) 0.15 0.1 None, Fire 0, StopAll, Fire 0]) = None
   \<and> stopWord (exec ascii_toLowerCase (initial True)
       [PlayTone 97 0 (JStr (js ''w'')) 0.15 0.1 None, Fire 0, StopAll, Fire 0])
       (JStr (js ''w'')) 0.1 = Inl TypeError
   \<and> activeNodes (exec ascii_toLowerCase (initial True)
       [PlayTone 97 0 (JStr (js ''w'')) 0.15 0.1 None, Fire 0, StopAll, Fire 0,
        StopWord (JStr (js ''w'')) 0.1]) = [(JStr (js ''w''), [])]
   \<and> activeNodes (exec ascii_toLowerCase (initial True)
       [PlayTone 97 0 (JStr (js ''w'')) 0.15 0.1 None, Fire 0,
        StopWord (JStr (js ''w'')) 0.1]) = []"
  by (simp add: engine_eval tracked_notes_def)

text \<open>
  Claim C8 at a state without audio context. After a note under the id w,
  \<^verbatim>\<open>stopAll()\<close> and the continuation of \<^verbatim>\<open>close()\<close>, the context ref is \<^verbatim>\<open>null\<close> and w
  still has its entry; \<^verbatim>\<open>stopWord(w, 0.3)\<close> then throws a TypeError, where \<^verbatim>\<open>fadeOut\<close>
  in the same state does nothing. In a browser without the constructor,
  \<^verbatim>\<open>playTone\<close> throws from the lazy initialisation.
\<close>

theorem stopWord_throws_without_context:
  "audioCtx (exec ascii_toLowerCase (initial True)
       [PlayTone 97 0 (JStr (js ''w'')) 0.15 0.1 None, StopAll, Fire 1]) = None
   \<and> activeNodes (exec ascii_toLowerCase (initial True)
       [PlayTone 97 0 (JStr (js ''w'')) 0.15 0.1 None, StopAll, Fire 1])
       = [(JStr (js ''w''), [0])]
   \<and> stopWord (exec ascii_toLowerCase (initial True)
       [PlayTone 97 0 (JStr (js ''w'')) 0.15 0.1 None, StopAll, Fire 1])
       (JStr (js ''w'')) 0.3 = Inl TypeError
   \<and> fadeOut (exec ascii_toLowerCase (initial True)
       [PlayTone 97 0 (JStr (js ''w'')) 0.15 0.1 None, StopAll, Fire 1]) 1.5
       = exec ascii_toLowerCase (initial True)
       [PlayTone 97 0 (JStr (js ''w'')) 0.15 0.1 None, StopAll, Fire 1]
   \<and> playTone ascii_toLowerCase (initial False) 97 0 JNull 0.15 0.1 None = Inl TypeError"
  by (simp add: engine_eval)

subsection \<open>Frame properties of the operations\<close>

lemma evolves_refl: "evolves st st"
  by (simp add: evolves_def)

lemma evolves_trans:
  assumes "evolves a b" and "evolves b c"
  shows "evolves a c"
proof -
  have len: "length (nodes a) \<le> length (nodes b)" "length (nodes b) \<le> length (nodes c)"
    using assms by (simp_all add: evolves_def)
  have rb: "refs b \<subseteq> refs a \<union> {length (nodes a) ..< length (nodes b)}"
    and rc: "refs c \<subseteq> refs b \<union> {length (nodes b) ..< length (nodes c)}"
    using assms by (simp_all add: evolves_def)
  have n: "nodes c ! n = nodes a ! n" if "n < length (nodes a)" "n \<notin> refs a" for n
  proof -
    from that rb have "n \<notin> refs b" by auto
    moreover from that len have "n < length (nodes b)" by simp
    ultimately have "nodes c ! n = nodes b ! n" using assms(2) by (simp add: evolves_def)
    moreover have "nodes b ! n = nodes a ! n" using assms(1) that by (simp add: evolves_def)
    ultimately show ?thesis by simp
  qed
  have "refs c \<subseteq> refs a \<union> {length (nodes a) ..< length (nodes c)}"
  proof
    fix x assume "x \<in> refs c"
    with rc have "x \<in> refs b \<or> (length (nodes b) \<le> x \<and> x < length (nodes c))" by auto
    moreover have "x \<in> refs a \<or> (length (nodes a) \<le> x \<and> x < length (nodes b))"
      if "x \<in> refs b" using that rb by auto
    ultimately show "x \<in> refs a \<union> {length (nodes a) ..< length (nodes c)}"
      using len by auto
  qed
  with len n show ?thesis by (simp add: evolves_def)
qed

lemma evolves_same:
  assumes "nodes st' = nodes st" "activeNodes st' = activeNodes st"
    and "stop_targets st' = stop_targets st"
  shows "evolves st st'"
  using assms by (simp add: evolves_def refs_def tracked_def)

lemma evolves_initAudio: "initAudio st = Inr st' \<Longrightarrow> evolves st st'"
  by (rule evolves_same)
     (auto simp: initAudio_def stop_targets_def split: option.splits if_splits)

lemma evolves_ensure_ctx: "ensure_ctx st = Inr st' \<Longrightarrow> evolves st st'"
  by (auto simp: ensure_ctx_def evolves_refl evolves_initAudio split: if_splits)

lemma evolves_fadeOut: "evolves st (fadeOut st d)"
  by (rule evolves_same) (auto simp: fadeOut_def stop_targets_def Let_def split: option.splits)

lemma evolves_resetVolume: "evolves st (resetVolume st)"
  by (rule evolves_same) (auto simp: resetVolume_def stop_targets_def Let_def split: option.splits)

lemma evolves_stopAll: "evolves st (stopAll st)"
  by (rule evolves_same) (auto simp: stopAll_def stop_targets_def split: option.splits)

lemma evolves_tick: "evolves st (tick st d)"
  by (rule evolves_same) (auto simp: tick_def stop_targets_def split: option.splits)

lemma set_tracked_update:
  "set (concat (map snd (AList.update k v m))) \<subseteq> set v \<union> set (concat (map snd m))"
  by (induction m) auto

lemma set_tracked_delete:
  "set (concat (map snd (AList.delete k m))) \<subseteq> set (concat (map snd m))"
  by (induction m) auto

lemma set_tracked_entry:
  "map_of m k = Some l \<Longrightarrow> set l \<subseteq> set (concat (map snd m))"
  by (induction m) (auto split: if_splits)

lemma schedule_tone_pending_falsy:
  "\<not> truthy wid \<Longrightarrow> pending (schedule_tone lc st ctx c off wid d v oct) = pending st"
  "\<not> truthy wid \<Longrightarrow> activeNodes (schedule_tone lc st ctx c off wid d v oct) = activeNodes st"
  by (simp_all add: schedule_tone_def Let_def)

lemma schedule_tone_stop_targets:
  "stop_targets (schedule_tone lc st ctx c off wid d v oct) = stop_targets st"
  by (simp add: schedule_tone_def Let_def stop_targets_def)

lemma schedule_tone_tracked:
  "set (tracked (schedule_tone lc st ctx c off wid d v oct))
     \<subseteq> set (tracked st) \<union> {length (nodes st)}"
proof (cases "truthy wid")
  case False
  then show ?thesis by (auto simp: tracked_def schedule_tone_pending_falsy)
next
  case True
  define m where "m = (if map_of (activeNodes st) wid = None
            then AList.update wid [] (activeNodes st) else activeNodes st)"
  define m' where "m' = (case map_of m wid of
                Some list \<Rightarrow> AList.update wid (list @ [length (nodes st)]) m
              | None \<Rightarrow> m)"
  have m: "set (concat (map snd m)) \<subseteq> set (tracked st)"
    using set_tracked_update [of wid "[]" "activeNodes st"] by (auto simp: tracked_def m_def)
  have "set (concat (map snd m')) \<subseteq> set (tracked st) \<union> {length (nodes st)}"
  proof (cases "map_of m wid")
    case None
    then have "m' = m" by (simp add: m'_def)
    then show ?thesis using m by blast
  next
    case (Some l)
    then have m': "m' = AList.update wid (l @ [length (nodes st)]) m" by (simp add: m'_def)
    have "set l \<subseteq> set (tracked st)"
      using set_tracked_entry [OF Some] m by blast
    with m have "set (l @ [length (nodes st)]) \<union> set (concat (map snd m))
                   \<subseteq> set (tracked st) \<union> {length (nodes st)}"
      by auto
    with set_tracked_update [of wid "l @ [length (nodes st)]" m] show ?thesis
      unfolding m' by blast
  qed
  moreover have "activeNodes (schedule_tone lc st ctx c off wid d v oct) = m'"
    using True by (simp add: schedule_tone_def Let_def m'_def m_def split: option.split)
  ultimately show ?thesis by (simp add: tracked_def)
qed

lemma evolves_schedule_tone: "evolves st (schedule_tone lc st ctx c off wid d v oct)"
  using schedule_tone_tracked [of lc st ctx c off wid d v oct]
  by (auto simp: evolves_def refs_def schedule_tone_nodes schedule_tone_stop_targets nth_append)

lemma playTone_cases:
  assumes "playTone lc st c off wid d v oct = Inr st'"
  shows "st' = st \<or> ensure_ctx st = Inr st'
         \<or> (\<exists>st1 ctx. ensure_ctx st = Inr st1 \<and> st' = schedule_tone lc st1 ctx c off wid d v oct)"
  using assms
  by (auto simp: playTone_def split: if_splits sum.splits option.splits)

lemma evolves_playTone:
  assumes "playTone lc st c off wid d v oct = Inr st'"
  shows "evolves st st'"
  using playTone_cases [OF assms]
  by (auto intro: evolves_refl evolves_ensure_ctx evolves_trans evolves_schedule_tone)

lemma evolves_play_tokens:
  "play_tokens lc st ts wid vol k = Inr st' \<Longrightarrow> evolves st st'"
proof (induction ts arbitrary: st k)
  case Nil
  then show ?case by (simp add: evolves_refl)
next
  case (Cons t ts)
  show ?case
  proof (cases t)
    case (Note c oct)
    with Cons.prems obtain st1 where
      1: "playTone lc st c (real k * noteSpacing) wid 0.4 vol (Some oct) = Inr st1"
      and 2: "play_tokens lc st1 ts wid vol (k + 1) = Inr st'"
      by (auto split: sum.splits)
    from evolves_playTone [OF 1] Cons.IH [OF 2] show ?thesis by (rule evolves_trans)
  next
    case (Pending c)
    with Cons show ?thesis by simp
  next
    case Newline
    with Cons show ?thesis by simp
  qed
qed

lemma evolves_playSequence:
  assumes "playSequence lc st word wid vol = Inr st'"
  shows "evolves st st'"
proof -
  from assms obtain st1 where e: "ensure_ctx st = Inr st1"
    and r: "st' = st1 \<or> play_tokens lc st1 (parseMelodyText word) wid vol 0 = Inr st'"
    by (auto simp: playSequence_def split: sum.splits if_splits)
  from r have "evolves st1 st'"
    by (auto intro: evolves_refl evolves_play_tokens)
  with evolves_ensure_ctx [OF e] show ?thesis by (rule evolves_trans)
qed


lemma fade_node_nodes:
  "m \<noteq> n \<Longrightarrow> nodes (fade_node t sd st n) ! m = nodes st ! m"
  by (simp add: fade_node_def)

lemma fade_node_stop_targets:
  "set (stop_targets (fade_node t sd st n)) \<subseteq> set (stop_targets st) \<union> {n}"
  by (auto simp: fade_node_def stop_targets_def)

lemma foldl_fade_nodes:
  "n \<notin> set l \<Longrightarrow> nodes (foldl (fade_node t sd) st l) ! n = nodes st ! n"
  by (induction l arbitrary: st) (simp_all add: fade_node_nodes)

lemma foldl_fade_stop_targets:
  "set (stop_targets (foldl (fade_node t sd) st l)) \<subseteq> set (stop_targets st) \<union> set l"
proof (induction l arbitrary: st)
  case Nil
  then show ?case by simp
next
  case (Cons a l)
  from Cons.IH [of "fade_node t sd st a"] fade_node_stop_targets [of t sd st a]
  show ?case by auto
qed

lemma evolves_stopWord:
  assumes "stopWord st wid f = Inr st'"
  shows "evolves st st'"
proof (cases "map_of (activeNodes st) wid")
  case None
  with assms show ?thesis by (simp add: stopWord_no_entry evolves_refl)
next
  case (Some l)
  show ?thesis
  proof (cases "audioCtx st")
    case None
    with Some assms show ?thesis by (simp add: stopWord_throws)
  next
    case ctx: (Some ctx)
    define st1 where "st1 = foldl (fade_node (currentTime ctx) (f * 1000 + 200)) st l"
    from assms have st': "st' = st1\<lparr>activeNodes := AList.delete wid (activeNodes st)\<rparr>"
      unfolding stopWord_entry [OF Some ctx] st1_def by simp
    have l: "set l \<subseteq> set (tracked st)"
      using set_tracked_entry [OF Some] by (simp add: tracked_def)
    have len: "length (nodes st') = length (nodes st)"
      by (simp add: st' st1_def foldl_fade_frame)
    have n: "nodes st' ! n = nodes st ! n" if "n \<notin> refs st" for n
    proof -
      from that l have "n \<notin> set l" by (auto simp: refs_def)
      then show ?thesis by (simp add: st' st1_def foldl_fade_nodes)
    qed
    have t: "set (tracked st') \<subseteq> set (tracked st)"
      using set_tracked_delete [of wid "activeNodes st"] by (simp add: st' tracked_def)
    have "set (stop_targets st') \<subseteq> set (stop_targets st) \<union> set l"
      using foldl_fade_stop_targets [of "currentTime ctx" "f * 1000 + 200" st l]
      by (simp add: st' st1_def stop_targets_def)
    with t l have "refs st' \<subseteq> refs st" by (auto simp: refs_def)
    with len n show ?thesis by (auto simp: evolves_def)
  qed
qed

lemma hard_stop_pending:
  assumes "i < length (pending st)" and "fst (pending st ! i) = HardStop n"
  shows "n \<in> set (stop_targets st)"
proof -
  obtain d where "pending st ! i = (HardStop n, d)"
    using assms(2) by (cases "pending st ! i") simp
  with assms(1) have "(HardStop n, d) \<in> set (pending st)"
    by (metis nth_mem)
  then show ?thesis
    by (force simp: stop_targets_def)
qed

lemma stop_targets_remove:
  "set (concat (map hard_stop_of (take i ps @ drop (Suc i) ps)))
     \<subseteq> set (concat (map hard_stop_of ps))"
proof -
  have "set (take i ps @ drop (Suc i) ps) \<subseteq> set ps"
    using set_take_subset [of i ps] set_drop_subset [of "Suc i" ps] by auto
  then show ?thesis by auto
qed

lemma evolves_fire: "evolves st (fire st i)"
proof (cases "i < length (pending st)")
  case False
  then show ?thesis by (simp add: fire_def evolves_refl)
next
  case True
  define st1 where "st1 = st\<lparr>pending := take i (pending st) @ drop (Suc i) (pending st)\<rparr>"
  have f: "fire st i = run_callback st1 (fst (pending st ! i))"
    using True by (simp add: fire_def st1_def)
  have s1: "set (stop_targets st1) \<subseteq> set (stop_targets st)"
    using stop_targets_remove [of i "pending st"] by (simp add: st1_def stop_targets_def)
  have n1: "nodes st1 = nodes st" and a1: "activeNodes st1 = activeNodes st"
    by (simp_all add: st1_def)
  show ?thesis
  proof (cases "fst (pending st ! i)")
    case (PruneNode wid n)
    show ?thesis
    proof (cases "map_of (activeNodes st) wid")
      case None
      then have "fire st i = st1" by (simp add: f PruneNode run_callback_def a1)
      then show ?thesis using s1 n1 a1 by (auto simp: evolves_def refs_def tracked_def)
    next
      case (Some l)
      then have e: "fire st i = st1\<lparr>activeNodes :=
            AList.update wid (filter (\<lambda>x. x \<noteq> n) l) (activeNodes st)\<rparr>"
        by (simp add: f PruneNode run_callback_def a1)
      have "set (tracked (fire st i)) \<subseteq> set (tracked st)"
        using set_tracked_update [of wid "filter (\<lambda>x. x \<noteq> n) l" "activeNodes st"]
          set_tracked_entry [OF Some]
        by (auto simp: e tracked_def)
      moreover have "set (stop_targets (fire st i)) \<subseteq> set (stop_targets st)"
        using s1 by (simp add: e stop_targets_def)
      moreover have "nodes (fire st i) = nodes st" by (simp add: e n1)
      ultimately show ?thesis by (auto simp: evolves_def refs_def)
    qed
  next
    case (HardStop n)
    have mem: "n \<in> refs st"
      using hard_stop_pending [OF True HardStop] by (simp add: refs_def)
    have "set (tracked (fire st i)) = set (tracked st)"
      by (simp add: f HardStop run_callback_def tracked_def a1)
    moreover have "set (stop_targets (fire st i)) \<subseteq> set (stop_targets st)"
      using s1 by (simp add: f HardStop run_callback_def stop_targets_def)
    moreover have "length (nodes (fire st i)) = length (nodes st)"
      by (simp add: f HardStop run_callback_def n1)
    moreover have "nodes (fire st i) ! m = nodes st ! m" if "m \<notin> refs st" for m
    proof -
      from that mem have "m \<noteq> n" by auto
      then show ?thesis by (simp add: f HardStop run_callback_def n1)
    qed
    ultimately show ?thesis by (auto simp: evolves_def refs_def)
  next
    case CloseThen
    then have "fire st i = st1\<lparr>audioCtx := None, masterGain := None\<rparr>"
      by (simp add: f run_callback_def)
    then show ?thesis using s1 n1 a1 by (auto simp: evolves_def refs_def tracked_def stop_targets_def)
  qed
qed

lemma evolves_step: "step lc st x = Inr st' \<Longrightarrow> evolves st st'"
  by (cases x)
     (auto simp: evolves_initAudio evolves_playTone evolves_playSequence evolves_stopWord
        evolves_stopAll evolves_fadeOut evolves_resetVolume evolves_fire evolves_tick)

lemma evolves_exec: "evolves st (exec lc st ops)"
proof (induction ops arbitrary: st)
  case Nil
  then show ?case by (simp add: evolves_refl)
next
  case (Cons x xs)
  show ?case
  proof (cases "step lc st x")
    case (Inl e)
    then show ?thesis using Cons.IH [of st] by simp
  next
    case (Inr st')
    from evolves_step [OF Inr] Cons.IH [of st'] have "evolves st (exec lc st' xs)"
      by (rule evolves_trans)
    with Inr show ?thesis by simp
  qed
qed

lemma wf_evolves: "wf st \<Longrightarrow> evolves st st' \<Longrightarrow> wf st'"
  by (fastforce simp: wf_def evolves_def)

lemma wf_initial: "wf (initial b)"
  by (simp add: wf_def refs_def initial_def tracked_def stop_targets_def)

lemma wf_reachable: "wf (exec lc (initial b) ops)"
  using wf_initial evolves_exec by (rule wf_evolves)


lemma ensure_ctx_frame:
  assumes "ensure_ctx st = Inr st1"
  shows "activeNodes st1 = activeNodes st \<and> nodes st1 = nodes st \<and> pending st1 = pending st"
  using assms
  by (auto simp: ensure_ctx_def initAudio_def split: if_splits option.splits)

lemma playTone_falsy_frame:
  assumes "\<not> truthy wid" and "playTone lc st c off wid d v oct = Inr st'"
  shows "activeNodes st' = activeNodes st \<and> pending st' = pending st
         \<and> (nodes st' = nodes st \<or> (\<exists>ng. nodes st' = nodes st @ [ng]))"
proof -
  from playTone_cases [OF assms(2)] consider
    "st' = st" | "ensure_ctx st = Inr st'"
    | st1 ctx where "ensure_ctx st = Inr st1" "st' = schedule_tone lc st1 ctx c off wid d v oct"
    by blast
  then show ?thesis
  proof cases
    case 1
    then show ?thesis by simp
  next
    case 2
    then show ?thesis using ensure_ctx_frame by blast
  next
    case 3
    from ensure_ctx_frame [OF 3(1)] show ?thesis
      by (simp add: 3(2) schedule_tone_pending_falsy [OF assms(1)] schedule_tone_nodes)
  qed
qed

text \<open>
  Claim C10. In every state the engine can reach, a call of \<^verbatim>\<open>playTone\<close> with a falsy
  \<^verbatim>\<open>wordId\<close> (\<^verbatim>\<open>null\<close>, \<^verbatim>\<open>undefined\<close>, \<^verbatim>\<open>false\<close>, 0, NaN or the empty string) leaves the
  bookkeeping map as it was and registers no cleanup: the size that later notes sample is
  not changed by the call. If the call schedules a note, then after any further
  operations (notes, sequences, stops, fades, callbacks that run) the node group of that
  note is in no entry of the map, no pending hard stop of \<^verbatim>\<open>stopWord\<close> refers to it,
  and its automation is exactly what \<^verbatim>\<open>playTone\<close> scheduled: no \<^verbatim>\<open>stopWord\<close> fades or
  stops it.
\<close>

theorem falsy_id_never_tracked:
  assumes "\<not> truthy wid"
    and "st = exec lc (initial b) ops0"
    and "playTone lc st c off wid d v oct = Inr st'"
  shows "activeNodes st' = activeNodes st \<and> pending st' = pending st
         \<and> (nodes st' = nodes st \<or> (\<exists>ng. nodes st' = nodes st @ [ng]))
         \<and> (\<forall>ops ng. nodes st' = nodes st @ [ng] \<longrightarrow>
               length (nodes st) \<notin> set (tracked (exec lc st' ops))
               \<and> length (nodes st) \<notin> set (stop_targets (exec lc st' ops))
               \<and> nodes (exec lc st' ops) ! length (nodes st) = ng)"
proof -
  note frame = playTone_falsy_frame [OF assms(1,3)]
  have wf: "wf st" unfolding assms(2) by (rule wf_reachable)
  have later: "length (nodes st) \<notin> set (tracked (exec lc st' ops))
               \<and> length (nodes st) \<notin> set (stop_targets (exec lc st' ops))
               \<and> nodes (exec lc st' ops) ! length (nodes st) = ng"
    if ng: "nodes st' = nodes st @ [ng]" for ops ng
  proof -
    let ?n = "length (nodes st)"
    have "refs st' = refs st"
      using frame by (simp add: refs_def tracked_def stop_targets_def)
    with wf have fresh: "?n \<notin> refs st'" by (auto simp: wf_def)
    have lt: "?n < length (nodes st')" by (simp add: ng)
    have ev: "evolves st' (exec lc st' ops)" by (rule evolves_exec)
    from ev fresh lt have "nodes (exec lc st' ops) ! ?n = nodes st' ! ?n"
      by (simp add: evolves_def)
    moreover from ev fresh lt have "?n \<notin> refs (exec lc st' ops)"
      by (auto simp: evolves_def)
    ultimately show ?thesis by (simp add: refs_def ng)
  qed
  from frame later show ?thesis by blast
qed

text \<open>
  A note with the id \<^verbatim>\<open>null\<close> on a fresh engine, followed by a note under the id w and
  a stop of w: node 0 is not tracked and keeps its automation.
\<close>

theorem falsy_id_never_tracked_witness:
  "\<not> truthy JNull
   \<and> (\<exists>st'. playTone ascii_toLowerCase (exec ascii_toLowerCase (initial True) []) 97 0 JNull
               0.15 0.1 None = Inr st'
        \<and> activeNodes st' = [] \<and> pending st' = [] \<and> length (nodes st') = 1
        \<and> 0 \<notin> set (tracked (exec ascii_toLowerCase st'
               [PlayTone 98 0 (JStr (js ''w'')) 0.15 0.1 None, StopWord (JStr (js ''w'')) 0.1]))
        \<and> 0 \<notin> set (stop_targets (exec ascii_toLowerCase st'
               [PlayTone 98 0 (JStr (js ''w'')) 0.15 0.1 None, StopWord (JStr (js ''w'')) 0.1]))
        \<and> gain_gain (nodes (exec ascii_toLowerCase st'
               [PlayTone 98 0 (JStr (js ''w'')) 0.15 0.1 None, StopWord (JStr (js ''w'')) 0.1]) ! 0)
            = [SetValueAtTime 0 0, LinearRampToValueAtTime 0.1 0.02,
               ExponentialRampToValueAtTime 0.001 0.15])"
proof -
  define st where "st = exec ascii_toLowerCase (initial True) []"
  define ops where
    "ops = [PlayTone 98 0 (JStr (js ''w'')) 0.15 0.1 None, StopWord (JStr (js ''w'')) 0.1]"
  have f: "\<not> truthy JNull" by simp
  have r: "ready st" by (simp add: st_def ready_def initial_def)
  have e: "activeNodes st = []" "pending st = []" "nodes st = []" "now st = 0"
    by (simp_all add: st_def initial_def now_def)
  from playTone_gain [of 97 st ascii_toLowerCase 0 JNull "0.15" "0.1" None] r
  obtain st' where p: "playTone ascii_toLowerCase st 97 0 JNull 0.15 0.1 None = Inr st'"
    and n: "nodes st' = nodes st @ [last (nodes st')]"
    and g: "gain_gain (last (nodes st')) =
              [SetValueAtTime 0 0, LinearRampToValueAtTime 0.1 0.02,
               ExponentialRampToValueAtTime 0.001 0.15]"
    by (auto simp: e)
  from falsy_id_never_tracked [OF f st_def p] n
  have t: "activeNodes st' = activeNodes st" "pending st' = pending st"
      "length (nodes st) \<notin> set (tracked (exec ascii_toLowerCase st' ops))"
      "length (nodes st) \<notin> set (stop_targets (exec ascii_toLowerCase st' ops))"
      "nodes (exec ascii_toLowerCase st' ops) ! length (nodes st) = last (nodes st')"
    by blast+
  have l: "length (nodes st') = 1" using n e by (metis length_append_singleton list.size(3) One_nat_def)
  from f p t g l show ?thesis
    unfolding e st_def [symmetric] ops_def [symmetric] by (auto simp: e)
qed

end
